theory Spec2Isabelle
  imports Main "HOL-Library.Word"
begin

unbundle bit_operations_syntax

section \<open>humanhash: human-readable representations of digests\<close>

text \<open>
  A shallow embedding of \<^verbatim>\<open>src/humanhash.py\<close> (Python 2: \<^verbatim>\<open>map\<close> builds a
  list, \<^verbatim>\<open>xrange\<close> and \<^verbatim>\<open>reduce\<close> are builtins). Python integers are unbounded, so
  they are \<^typ>\<open>int\<close>; a \<^verbatim>\<open>str\<close> is a \<^typ>\<open>string\<close>; a list of byte values is an
  \<^typ>\<open>int list\<close>. Every \<^verbatim>\<open>raise\<close>, and every exception of a builtin the code can
  reach, is a value \<open>Inl e\<close> of the result type.
\<close>

subsection \<open>Exceptions\<close>

text \<open>
  The module raises \<^verbatim>\<open>ValueError\<close> with two messages of its own; \<^verbatim>\<open>int(x, 16)\<close>
  raises \<^verbatim>\<open>ValueError\<close> too (its message quotes the literal, which the model leaves
  out); \<^verbatim>\<open>//\<close> raises \<^verbatim>\<open>ZeroDivisionError\<close> and indexing raises \<^verbatim>\<open>IndexError\<close>.
\<close>

datatype error = ValueError string | ZeroDivisionError | IndexError

definition wordlist_msg :: string where
  "wordlist_msg = ''Wordlist must have exactly 256 items''"

definition fewer_msg :: string where
  "fewer_msg = ''Fewer input bytes than requested output''"

definition literal_msg :: string where
  "literal_msg = ''invalid literal for int() with base 16''"

subsection \<open>Python sequence operations\<close>

text \<open>\<^verbatim>\<open>xs[i:j]\<close>: a negative bound counts from the end, and both bounds are clamped.\<close>

definition clamp_index :: "nat \<Rightarrow> int \<Rightarrow> nat" where
  "clamp_index n i = (if i < 0 then nat (max 0 (i + int n)) else min (nat i) n)"

definition slice :: "'a list \<Rightarrow> int \<Rightarrow> int \<Rightarrow> 'a list" where
  "slice xs i j =
     (let lo = clamp_index (length xs) i; hi = clamp_index (length xs) j
      in take (hi - lo) (drop lo xs))"

text \<open>\<^verbatim>\<open>xs[i:]\<close>.\<close>

definition slice_from :: "'a list \<Rightarrow> int \<Rightarrow> 'a list" where
  "slice_from xs i = drop (clamp_index (length xs) i) xs"

text \<open>\<^verbatim>\<open>xs[::2]\<close>: every second element, from the first.\<close>

fun stride2 :: "'a list \<Rightarrow> 'a list" where
  "stride2 [] = []"
| "stride2 [x] = [x]"
| "stride2 (x # y # xs) = x # stride2 xs"

text \<open>\<^verbatim>\<open>xrange(n)\<close>: empty when \<open>n \<le> 0\<close>.\<close>

definition xrange :: "int \<Rightarrow> int list" where
  "xrange n = map int [0..<nat n]"

text \<open>\<^verbatim>\<open>xs[i]\<close> with Python's negative indices and its \<^verbatim>\<open>IndexError\<close>.\<close>

definition getitem :: "'a list \<Rightarrow> int \<Rightarrow> error + 'a" where
  "getitem xs i =
     (if 0 \<le> i \<and> i < int (length xs) then Inr (xs ! nat i)
      else if i < 0 \<and> - int (length xs) \<le> i then Inr (xs ! nat (int (length xs) + i))
      else Inl IndexError)"

text \<open>\<^verbatim>\<open>separator.join(ws)\<close>.\<close>

fun join :: "string \<Rightarrow> string list \<Rightarrow> string" where
  "join sep [] = []"
| "join sep [w] = w"
| "join sep (w # ws) = w @ sep @ join sep ws"

text \<open>
  A \<^verbatim>\<open>map\<close> (or a generator consumed in order) over a function that can raise: the
  first exception, in list order, ends it.
\<close>

fun traverse :: "('a \<Rightarrow> error + 'b) \<Rightarrow> 'a list \<Rightarrow> error + 'b list" where
  "traverse f [] = Inr []"
| "traverse f (x # xs) =
     (case f x of
        Inl e \<Rightarrow> Inl e
      | Inr y \<Rightarrow> (case traverse f xs of Inl e \<Rightarrow> Inl e | Inr ys \<Rightarrow> Inr (y # ys)))"

subsection \<open>\<^verbatim>\<open>int(x, 16)\<close> on a pair of characters\<close>

definition hex_value :: "char \<Rightarrow> int option" where
  "hex_value c =
     (let n = of_char c :: nat in
      if 48 \<le> n \<and> n \<le> 57 then Some (int n - 48)
      else if 97 \<le> n \<and> n \<le> 102 then Some (int n - 87)
      else if 65 \<le> n \<and> n \<le> 70 then Some (int n - 55)
      else None)"

definition is_hex :: "char \<Rightarrow> bool" where
  "is_hex c = (hex_value c \<noteq> None)"

text \<open>C's \<^verbatim>\<open>isspace\<close>: space, and the controls 9 to 13.\<close>

definition is_space :: "char \<Rightarrow> bool" where
  "is_space c = (let n = of_char c :: nat in n = 32 \<or> (9 \<le> n \<and> n \<le> 13))"

text \<open>
  \<^verbatim>\<open>humanize\<close> calls \<^verbatim>\<open>int(x, 16)\<close> only on the two-character strings that
  \<^verbatim>\<open>''.join\<close> makes of a pair, so the builtin is modelled on those: two hex digits; or
  one hex digit after a sign or a blank, or before a blank (\<^verbatim>\<open>int\<close> strips blanks
  and reads a sign); anything else, \<^verbatim>\<open>'0x'\<close> included, is an invalid literal.
\<close>

definition int16 :: "char \<times> char \<Rightarrow> error + int" where
  "int16 p =
     (case p of (a, b) \<Rightarrow>
        (case (hex_value a, hex_value b) of
           (Some x, Some y) \<Rightarrow> Inr (16 * x + y)
         | (Some x, None) \<Rightarrow> if is_space b then Inr x else Inl (ValueError literal_msg)
         | (None, Some y) \<Rightarrow>
             if is_space a \<or> a = CHR ''+'' then Inr y
             else if a = CHR ''-'' then Inr (- y)
             else Inl (ValueError literal_msg)
         | (None, None) \<Rightarrow> Inl (ValueError literal_msg)))"

text \<open>A byte value: what \<^verbatim>\<open>int(x, 16)\<close> makes of two hex digits.\<close>

definition byte :: "int \<Rightarrow> bool" where
  "byte b = (0 \<le> b \<and> b < 256)"

subsection \<open>\<^verbatim>\<open>HumanHasher\<close>\<close>

record HumanHasher =
  wordlist :: "string list"

text \<open>\<^verbatim>\<open>HumanHasher.__init__\<close>\<close>

definition init :: "string list \<Rightarrow> error + HumanHasher" where
  "init wl =
     (if length wl \<noteq> 256 then Inl (ValueError wordlist_msg)
      else Inr \<lparr>wordlist = wl\<rparr>)"

text \<open>\<^verbatim>\<open>checksum = lambda bytes: reduce(operator.xor, bytes, 0)\<close>\<close>

definition checksum :: "int list \<Rightarrow> int" where
  "checksum bs = foldl (XOR) 0 bs"

text \<open>
  \<^verbatim>\<open>HumanHasher.compress\<close>. The slices are fresh lists, so \<^verbatim>\<open>extend\<close> on the last of
  them changes that segment only. With \<open>target < 0\<close> the comprehension is empty and
  \<^verbatim>\<open>segments[-1]\<close> raises.
\<close>

definition compress :: "int list \<Rightarrow> int \<Rightarrow> error + int list" where
  "compress bytes target =
     (let len = int (length bytes) in
      if target > len then Inl (ValueError fewer_msg)
      else if target = 0 then Inl ZeroDivisionError
      else
        let seg_size = len div target;
            segments = map (\<lambda>i. slice bytes (i * seg_size) ((i + 1) * seg_size))
                         (xrange target)
        in if segments = [] then Inl IndexError
           else
             let segments' =
                   butlast segments @ [last segments @ slice_from bytes (target * seg_size)]
             in Inr (map checksum segments'))"

text \<open>
  \<^verbatim>\<open>HumanHasher.humanize\<close>: the pairs of \<^verbatim>\<open>zip(hexdigest[::2], hexdigest[1::2])\<close> are
  parsed, compressed and looked up in the word list.
\<close>

definition digest_bytes :: "string \<Rightarrow> error + int list" where
  "digest_bytes hexdigest = traverse int16 (zip (stride2 hexdigest) (stride2 (drop 1 hexdigest)))"

definition humanize :: "HumanHasher \<Rightarrow> string \<Rightarrow> int \<Rightarrow> string \<Rightarrow> error + string" where
  "humanize self hexdigest words separator =
     (case digest_bytes hexdigest of
        Inl e \<Rightarrow> Inl e
      | Inr bytes \<Rightarrow>
          (case compress bytes words of
             Inl e \<Rightarrow> Inl e
           | Inr compressed \<Rightarrow>
               (case traverse (getitem (wordlist self)) compressed of
                  Inl e \<Rightarrow> Inl e
                | Inr ws \<Rightarrow> Inr (join separator ws))))"

text \<open>
  The functions above give the value each method returns. The objects the methods
  allocate and change are followed in the section on the store of objects.
\<close>

subsection \<open>\<^verbatim>\<open>HumanHasher.uuid\<close>\<close>

text \<open>
  \<^verbatim>\<open>uuidlib.uuid4()\<close> is the random source: the model takes the 128-bit value it
  drew as an argument. \<^verbatim>\<open>str\<close> of a UUID is \<^verbatim>\<open>'%032x' % self.int\<close> cut into groups
  of 8, 4, 4, 4 and 12 digits joined by dashes.
\<close>

definition hexdigit :: "nat \<Rightarrow> char" where
  "hexdigit n = ''0123456789abcdef'' ! n"

definition hex32 :: "128 word \<Rightarrow> string" where
  "hex32 u = map (\<lambda>i. hexdigit (unat (drop_bit (4 * (31 - i)) u AND 15))) [0..<32]"

definition str_uuid :: "128 word \<Rightarrow> string" where
  "str_uuid u =
     (let hex = hex32 u
      in slice hex 0 8 @ ''-'' @ slice hex 8 12 @ ''-'' @ slice hex 12 16 @ ''-''
         @ slice hex 16 20 @ ''-'' @ slice_from hex 20)"

text \<open>\<^verbatim>\<open>s.replace('-', '')\<close>\<close>

definition strip_dashes :: "string \<Rightarrow> string" where
  "strip_dashes s = filter (\<lambda>c. c \<noteq> CHR ''-'') s"

text \<open>
  \<^verbatim>\<open>**params\<close>: the keyword arguments \<^verbatim>\<open>humanize\<close> accepts besides the digest, each
  given or left to its default (\<^verbatim>\<open>words=4\<close>, \<^verbatim>\<open>separator='-'\<close>).
\<close>

record params =
  kw_words :: "int option"
  kw_separator :: "string option"

definition humanize_kw :: "HumanHasher \<Rightarrow> string \<Rightarrow> params \<Rightarrow> error + string" where
  "humanize_kw self hexdigest ps =
     humanize self hexdigest
       (case kw_words ps of None \<Rightarrow> 4 | Some w \<Rightarrow> w)
       (case kw_separator ps of None \<Rightarrow> ''-'' | Some s \<Rightarrow> s)"

definition uuid :: "HumanHasher \<Rightarrow> 128 word \<Rightarrow> params \<Rightarrow> error + (string \<times> string)" where
  "uuid self u ps =
     (let digest = strip_dashes (str_uuid u)
      in case humanize_kw self digest ps of
           Inl e \<Rightarrow> Inl e
         | Inr human \<Rightarrow> Inr (human, digest))"

subsection \<open>The module's defaults\<close>

definition DEFAULT_WORDLIST :: "string list" where
  "DEFAULT_WORDLIST =
    [''nlp'', ''nosql'', ''photoshop'', ''saas'', ''xcode'', ''sqlserver'', ''hadoop'',
     ''data-scientist'', ''mysql'', ''ninja'', ''openstack'', ''visual-studio'',
     ''code-review'', ''integrity'', ''mobile-app'', ''developer'', ''xml'',
     ''native-app'', ''apache-cordova'', ''candidate'', ''mumbai'', ''analytics'',
     ''flash'', ''cdns'', ''celery'', ''usability'', ''equity'', ''localizations'',
     ''junit'', ''css3'', ''activities'', ''meteor'', ''iit-bombay'', ''python'',
     ''evaluate'', ''rake'', ''postgis'', ''psd'', ''functional'', ''appstore'',
     ''background'', ''jenkins'', ''web-sockets'', ''excellent-negotiating'', ''mocha'',
     ''java-script'', ''ie9'', ''storyboard'', ''open-source'', ''data-mining'', ''make'',
     ''rabbitmq'', ''server'', ''digital-media'', ''scalable-architecture'', ''team'',
     ''mapkit'', ''security'', ''cms'', ''rack'', ''detailed-job'', ''crm'', ''front-end'',
     ''javascript-engineers'', ''foundation'', ''adobe'', ''rockstar'', ''dilbert'',
     ''android-sdks'', ''twitter'', ''startup'', ''job-requirements'', ''iim-calcutta'',
     ''layouts'', ''growth'', ''design'', ''kickass'', ''reviewer'', ''team-player'',
     ''postgres'', ''social-networks'', ''expert'', ''phonegap'', ''android-studio'',
     ''redis'', ''angular-js'', ''version'', ''seo-'', ''cakephp'', ''full-stack'',
     ''backend'', ''jasmin'', ''core'', ''hibernate'', ''java-programming'', ''business'',
     ''web'', ''internship'', ''aws'', ''javascript'', ''jasmine'', ''iconic'',
     ''web-developer'', ''tdd'', ''ajax'', ''china'', ''html5'', ''ubuntu'', ''apache'',
     ''strong'', ''graphic-designer'', ''laravel'', ''pune'', ''web-servcies'',
     ''postgresql'', ''constraint'', ''php-developer'', ''industry'', ''experience'',
     ''keen'', ''joomla'', ''mvc'', ''elasticsearch'', ''adobe-photoshop'', ''sass'',
     ''ionic'', ''new-delhi'', ''vacation-policy'', ''apple'', ''social-media'',
     ''devops'', ''cocoa'', ''unix'', ''api'', ''linux'', ''sounds'', ''ios-developer'',
     ''engineer'', ''iim-bangalore'', ''git'', ''java'', ''codeigniter'', ''free'',
     ''software-developer'', ''nosql-db'', ''perl'', ''json'', ''wordpress'', ''iphone'',
     ''criteria'', ''widgets'', ''mks'', ''lean-practices'', ''energy'',
     ''big-data-analytics'', ''define'', ''function'', ''iit'', ''newsletters'',
     ''company'', ''memory'', ''j2ee'', ''rspec'', ''ec2'', ''iit-delhi'', ''grunt'',
     ''ruby'', ''sdk'', ''jquery'', ''project-manager'', ''analyze'', ''illustrator'',
     ''tomcat'', ''embedded'', ''web-app'', ''rest-api'', ''work'', ''eclipse'',
     ''objective-c'', ''senior-architect'', ''lead'', ''lucene'', ''frameworks'',
     ''compensation'', ''open-gl'', ''stock-options'', ''jquery-mobile'', ''nashik'',
     ''android-apis'', ''restful'', ''requirejs'', ''user-interface'', ''sqlite'',
     ''documentation'', ''mongo'', ''springmvc'', ''big-data'', ''india'', ''sales'',
     ''linkedin'', ''koramangala'', ''iit-kanpur'', ''ansible'', ''expertise'',
     ''angularjs'', ''silicon-valley'', ''technology'', ''html-designer'',
     ''ipad-developer'', ''adwords'', ''webgl'', ''firmware'', ''vagrant'',
     ''indiranagar'', ''phonegap-developer'', ''ceo'', ''html'', ''esops'',
     ''machine-learning'', ''online'', ''performance'', ''android'', ''pandas'', ''css'',
     ''karma'', ''node'', ''gurgaon'', ''bonus'', ''mongodb'', ''senior-ux'', ''ios'',
     ''scalability'', ''mouth'', ''plan'', ''sql'', ''services'', ''tech-lead'', ''php'',
     ''data'', ''svn'', ''paas'', ''designers'', ''github'', ''technical-lead'',
     ''algorithm'', ''database'', ''url'', ''bootstrap'', ''san-francisco'', ''django'',
     ''client'', ''advocacy'', ''databases'', ''coordinate'', ''frontend-developers'',
     ''mac-os'']"

definition DEFAULT_HASHER :: "error + HumanHasher" where
  "DEFAULT_HASHER = init DEFAULT_WORDLIST"

section \<open>The methods on a store of objects\<close>

text \<open>
  The objects the methods touch, by address (an index into the heap of its kind):
  \<^verbatim>\<open>HumanHasher\<close> instances, each holding the value of \<^verbatim>\<open>self.wordlist\<close>; lists of
  integers (\<^verbatim>\<open>bytes\<close>, every slice, \<^verbatim>\<open>checksums\<close>); and lists of references to
  those (\<^verbatim>\<open>segments\<close>). A new object takes the next address. Strings and tuples are
  immutable and stay values; so do the lists \<^verbatim>\<open>zip\<close> and \<^verbatim>\<open>map(''.join, ...)\<close> build
  inside the parse, which are read once and dropped.
\<close>

record store =
  hashers :: "string list list"
  int_lists :: "int list list"
  ref_lists :: "nat list list"

definition new_hasher :: "string list \<Rightarrow> store \<Rightarrow> nat \<times> store" where
  "new_hasher wl \<sigma> = (length (hashers \<sigma>), \<sigma>\<lparr>hashers := hashers \<sigma> @ [wl]\<rparr>)"

definition new_ints :: "int list \<Rightarrow> store \<Rightarrow> nat \<times> store" where
  "new_ints xs \<sigma> = (length (int_lists \<sigma>), \<sigma>\<lparr>int_lists := int_lists \<sigma> @ [xs]\<rparr>)"

definition new_refs :: "nat list \<Rightarrow> store \<Rightarrow> nat \<times> store" where
  "new_refs rs \<sigma> = (length (ref_lists \<sigma>), \<sigma>\<lparr>ref_lists := ref_lists \<sigma> @ [rs]\<rparr>)"

text \<open>\<^verbatim>\<open>xs.extend(ys)\<close>: the list object at \<open>a\<close> changes in place.\<close>

definition extend_st :: "nat \<Rightarrow> int list \<Rightarrow> store \<Rightarrow> store" where
  "extend_st a ys \<sigma> = \<sigma>\<lparr>int_lists := (int_lists \<sigma>)[a := int_lists \<sigma> ! a @ ys]\<rparr>"

text \<open>\<^verbatim>\<open>HumanHasher(wordlist)\<close>: a refused instance is unreachable and leaves no object.\<close>

definition init_st :: "string list \<Rightarrow> store \<Rightarrow> (error + nat) \<times> store" where
  "init_st wl \<sigma> =
     (if length wl \<noteq> 256 then (Inl (ValueError wordlist_msg), \<sigma>)
      else let (self, \<sigma>1) = new_hasher wl \<sigma> in (Inr self, \<sigma>1))"

text \<open>The comprehension of \<^verbatim>\<open>compress\<close>: one new list per slice, in order.\<close>

fun slices_st :: "nat \<Rightarrow> int \<Rightarrow> int list \<Rightarrow> store \<Rightarrow> nat list \<times> store" where
  "slices_st bytes seg_size [] \<sigma> = ([], \<sigma>)"
| "slices_st bytes seg_size (i # is) \<sigma> =
     (let (r, \<sigma>1) = new_ints (slice (int_lists \<sigma> ! bytes) (i * seg_size) ((i + 1) * seg_size)) \<sigma>;
          (rs, \<sigma>2) = slices_st bytes seg_size is \<sigma>1
      in (r # rs, \<sigma>2))"

text \<open>
  \<^verbatim>\<open>compress\<close> on a reference to the byte list; it returns a reference to the new
  list of checksums. What was allocated before an exception stays in the store.
\<close>

definition compress_st :: "nat \<Rightarrow> int \<Rightarrow> store \<Rightarrow> (error + nat) \<times> store" where
  "compress_st bytes target \<sigma> =
     (let len = int (length (int_lists \<sigma> ! bytes)) in
      if target > len then (Inl (ValueError fewer_msg), \<sigma>)
      else if target = 0 then (Inl ZeroDivisionError, \<sigma>)
      else
        let seg_size = len div target;
            (rs, \<sigma>1) = slices_st bytes seg_size (xrange target) \<sigma>;
            (segments, \<sigma>2) = new_refs rs \<sigma>1
        in if ref_lists \<sigma>2 ! segments = [] then (Inl IndexError, \<sigma>2)
           else
             let last_segment = last (ref_lists \<sigma>2 ! segments);
                 (rest, \<sigma>3) = new_ints (slice_from (int_lists \<sigma>2 ! bytes) (target * seg_size)) \<sigma>2;
                 \<sigma>4 = extend_st last_segment (int_lists \<sigma>3 ! rest) \<sigma>3;
                 (checksums, \<sigma>5) =
                   new_ints (map (\<lambda>r. checksum (int_lists \<sigma>4 ! r)) (ref_lists \<sigma>4 ! segments)) \<sigma>4
             in (Inr checksums, \<sigma>5))"

text \<open>\<^verbatim>\<open>humanize\<close> on a reference to the hasher.\<close>

definition humanize_st :: "nat \<Rightarrow> string \<Rightarrow> int \<Rightarrow> string \<Rightarrow> store \<Rightarrow> (error + string) \<times> store" where
  "humanize_st self hexdigest words separator \<sigma> =
     (case digest_bytes hexdigest of
        Inl e \<Rightarrow> (Inl e, \<sigma>)
      | Inr bs \<Rightarrow>
          let (bytes, \<sigma>1) = new_ints bs \<sigma> in
          (case compress_st bytes words \<sigma>1 of
             (Inl e, \<sigma>2) \<Rightarrow> (Inl e, \<sigma>2)
           | (Inr compressed, \<sigma>2) \<Rightarrow>
               (case traverse (getitem (hashers \<sigma>2 ! self)) (int_lists \<sigma>2 ! compressed) of
                  Inl e \<Rightarrow> (Inl e, \<sigma>2)
                | Inr ws \<Rightarrow> (Inr (join separator ws), \<sigma>2))))"

text \<open>
  Every object of \<open>\<sigma>\<close> is an object of \<open>\<sigma>'\<close>, at the same address and with the same
  value: \<open>\<sigma>'\<close> differs from \<open>\<sigma>\<close> by new objects only.
\<close>

definition preserved :: "store \<Rightarrow> store \<Rightarrow> bool" where
  "preserved \<sigma> \<sigma>' =
     (take (length (hashers \<sigma>)) (hashers \<sigma>') = hashers \<sigma>
      \<and> take (length (int_lists \<sigma>)) (int_lists \<sigma>') = int_lists \<sigma>
      \<and> take (length (ref_lists \<sigma>)) (ref_lists \<sigma>') = ref_lists \<sigma>)"

section \<open>The compression the specification describes\<close>

text \<open>
  Written from the words of the specification, to be compared with \<open>compress\<close>:
  the first \<open>target * segSize\<close> bytes are cut, in order, into \<open>target\<close> segments
  of \<open>segSize\<close> bytes; the bytes left over are appended to the last segment; each
  segment is folded with XOR, starting from 0.
\<close>

fun chunks :: "nat \<Rightarrow> nat \<Rightarrow> 'a list \<Rightarrow> 'a list list" where
  "chunks s 0 xs = []"
| "chunks s (Suc k) xs = take s xs # chunks s k (drop s xs)"

definition spec_segments :: "nat \<Rightarrow> nat \<Rightarrow> 'a list \<Rightarrow> 'a list list" where
  "spec_segments s k xs = (let cs = chunks s k xs in butlast cs @ [last cs @ drop (k * s) xs])"

fun spec_xor :: "int list \<Rightarrow> int" where
  "spec_xor [] = 0"
| "spec_xor (b # bs) = b XOR spec_xor bs"

definition spec_compress :: "int list \<Rightarrow> nat \<Rightarrow> int list" where
  "spec_compress input target =
     map spec_xor (spec_segments (length input div target) target input)"

section \<open>Slices and segments\<close>

lemma clamp_index_nat: "clamp_index n (int i) = min i n"
  by (simp add: clamp_index_def)

lemma slice_nat: "slice xs (int i) (int j) = take (j - i) (drop i xs)"
  by (cases "i \<le> length xs") (simp_all add: slice_def clamp_index_nat min_def)

lemma slice_from_nat: "slice_from xs (int i) = drop i xs"
  by (cases "i \<le> length xs") (simp_all add: slice_from_def clamp_index_nat min_def)

lemma chunks_map: "chunks s k xs = map (\<lambda>i. take s (drop (i * s) xs)) [0..<k]"
proof (induction k arbitrary: xs)
  case 0
  show ?case by simp
next
  case (Suc k)
  have "[0..<Suc k] = 0 # map Suc [0..<k]"
    by (simp add: upt_conv_Cons map_Suc_upt del: upt_Suc)
  then show ?case
    by (simp add: Suc.IH comp_def add.commute del: upt_Suc)
qed

lemma length_chunks: "length (chunks s k xs) = k"
  by (induction k arbitrary: xs) simp_all

lemma segments_nat:
  "map (\<lambda>i. slice xs (i * int s) ((i + 1) * int s)) (xrange (int k)) = chunks s k xs"
proof -
  have "slice xs (int i * int s) ((int i + 1) * int s) = take s (drop (i * s) xs)" for i
    using slice_nat [of xs "i * s" "(i + 1) * s"] by (simp add: algebra_simps)
  then show ?thesis
    by (simp add: xrange_def chunks_map comp_def)
qed

lemma checksum_spec_xor: "checksum bs = spec_xor bs"
proof -
  have "foldl (XOR) a bs = a XOR spec_xor bs" for a
    by (induction bs arbitrary: a) (simp_all add: xor.assoc)
  then show ?thesis by (simp add: checksum_def)
qed

lemma compress_nat:
  assumes "0 < k" "k \<le> length xs"
  shows "compress xs (int k) = Inr (map checksum (spec_segments (length xs div k) k xs))"
proof -
  have d: "int (length xs) div int k = int (length xs div k)"
    by (simp add: zdiv_int)
  have ne: "chunks (length xs div k) k xs \<noteq> []"
    using assms(1) length_chunks [of "length xs div k" k xs] by auto
  have sf: "slice_from xs (int k * int (length xs div k)) = drop (k * (length xs div k)) xs"
    using slice_from_nat [of xs "k * (length xs div k)"] by simp
  have xr: "xrange (int k) \<noteq> []"
    using assms(1) by (simp add: xrange_def)
  show ?thesis
    using assms ne xr
    by (simp add: compress_def Let_def d segments_nat sf spec_segments_def)
qed

lemma length_spec_segments: "0 < k \<Longrightarrow> length (spec_segments s k xs) = k"
  by (simp add: spec_segments_def Let_def length_chunks)

lemma concat_chunks: "concat (chunks s k xs) = take (k * s) xs"
proof (induction k arbitrary: xs)
  case 0
  show ?case by simp
next
  case (Suc k)
  have "take s xs @ take (k * s) (drop s xs) = take (s + k * s) xs"
    by (simp add: take_add)
  then show ?case by (simp add: Suc.IH)
qed

lemma concat_spec_segments: "0 < k \<Longrightarrow> concat (spec_segments s k xs) = xs"
proof -
  assume "0 < k"
  then have ne: "chunks s k xs \<noteq> []"
    using length_chunks [of s k xs] by auto
  have "concat (butlast (chunks s k xs)) @ last (chunks s k xs) = concat (chunks s k xs)"
    using ne by (metis append_butlast_last_id concat_append concat.simps append_Nil2)
  then have "concat (spec_segments s k xs) = concat (chunks s k xs) @ drop (k * s) xs"
    by (simp add: spec_segments_def Let_def)
  then show ?thesis
    by (simp add: concat_chunks)
qed

lemma nth_chunks: "i < k \<Longrightarrow> chunks s k xs ! i = take s (drop (i * s) xs)"
  by (simp add: chunks_map)

lemma nth_spec_segments:
  assumes "Suc i < k"
  shows "spec_segments s k xs ! i = take s (drop (i * s) xs)"
proof -
  have "i < length (butlast (chunks s k xs))"
    using assms by (simp add: length_chunks)
  then have "spec_segments s k xs ! i = butlast (chunks s k xs) ! i"
    by (simp add: spec_segments_def Let_def nth_append)
  also have "\<dots> = chunks s k xs ! i"
    using assms by (simp add: nth_butlast length_chunks)
  finally show ?thesis
    using assms by (simp add: nth_chunks)
qed

lemma last_spec_segments:
  assumes "0 < k"
  shows "last (spec_segments s k xs) = drop ((k - 1) * s) xs"
proof -
  define ys where "ys = drop ((k - 1) * s) xs"
  have ne: "chunks s k xs \<noteq> []"
    using assms length_chunks [of s k xs] by auto
  have "last (chunks s k xs) = chunks s k xs ! (k - 1)"
    using ne by (simp add: last_conv_nth length_chunks)
  also have "\<dots> = take s ys"
    using assms by (simp add: nth_chunks ys_def)
  finally have l: "last (chunks s k xs) = take s ys" .
  have "k * s = s + (k - 1) * s"
    using assms by (cases k) simp_all
  then have d: "drop (k * s) xs = drop s ys"
    by (simp add: ys_def)
  have "last (spec_segments s k xs) = last (chunks s k xs) @ drop (k * s) xs"
    by (simp add: spec_segments_def Let_def)
  also have "\<dots> = take s ys @ drop s ys"
    by (simp only: l d)
  also have "\<dots> = ys"
    by (rule append_take_drop_id)
  finally show ?thesis
    by (simp only: ys_def)
qed

section \<open>The branches of \<open>compress\<close>\<close>

lemma compress_fewer: "int (length bytes) < target \<Longrightarrow> compress bytes target = Inl (ValueError fewer_msg)"
  by (simp add: compress_def)

lemma compress_zero: "compress bytes 0 = Inl ZeroDivisionError"
  by (simp add: compress_def)

lemma compress_negative: "target < 0 \<Longrightarrow> compress bytes target = Inl IndexError"
  by (simp add: compress_def Let_def xrange_def)

lemma compress_returns:
  assumes "1 \<le> target" "target \<le> int (length bytes)"
  shows "\<exists>out. compress bytes target = Inr out \<and> length out = nat target"
proof -
  have "0 < nat target" "nat target \<le> length bytes" "int (nat target) = target"
    using assms by simp_all
  then show ?thesis
    using compress_nat [of "nat target" bytes] by (simp add: length_spec_segments)
qed

lemma chunks_singletons: "chunks (Suc 0) (length xs) xs = map (\<lambda>x. [x]) xs"
  by (induction xs) simp_all

lemma length_DEFAULT_WORDLIST: "length DEFAULT_WORDLIST = 256"
  by (simp add: DEFAULT_WORDLIST_def)

section \<open>Parsing a digest\<close>

lemma stride2_Cons: "stride2 (y # xs) = y # stride2 (drop (Suc 0) xs)"
  by (cases xs) simp_all

lemma pairs_Cons2:
  "zip (stride2 (x # y # xs)) (stride2 (drop 1 (x # y # xs))) =
     (x, y) # zip (stride2 xs) (stride2 (drop 1 xs))"
  by (simp add: stride2_Cons)

lemma digest_bytes_Nil: "digest_bytes [] = Inr []"
  by (simp add: digest_bytes_def)

lemma digest_bytes_single: "digest_bytes [x] = Inr []"
  by (simp add: digest_bytes_def)

lemma digest_bytes_Cons2:
  "digest_bytes (x # y # xs) =
     (case int16 (x, y) of
        Inl e \<Rightarrow> Inl e
      | Inr b \<Rightarrow> (case digest_bytes xs of Inl e \<Rightarrow> Inl e | Inr bs \<Rightarrow> Inr (b # bs)))"
  by (simp only: digest_bytes_def pairs_Cons2 traverse.simps)

lemma hex_value_range: "hex_value c = Some v \<Longrightarrow> 0 \<le> v \<and> v < 16"
  by (auto simp add: hex_value_def Let_def split: if_splits)

lemma int16_hex:
  assumes "is_hex a" "is_hex b"
  shows "\<exists>v. int16 (a, b) = Inr v \<and> byte v"
proof -
  obtain x y where xy: "hex_value a = Some x" "hex_value b = Some y"
    using assms by (auto simp add: is_hex_def)
  have "0 \<le> x \<and> x < 16" "0 \<le> y \<and> y < 16"
    using xy hex_value_range by blast+
  then show ?thesis
    using xy by (simp add: int16_def byte_def)
qed

lemma digest_bytes_hex:
  "list_all is_hex d \<Longrightarrow>
   \<exists>bs. digest_bytes d = Inr bs \<and> length bs = length d div 2 \<and> list_all byte bs"
proof (induction d rule: stride2.induct)
  case 1
  show ?case by (simp add: digest_bytes_Nil)
next
  case (2 x)
  show ?case by (simp add: digest_bytes_single)
next
  case (3 x y xs)
  then obtain bs where bs: "digest_bytes xs = Inr bs" "length bs = length xs div 2" "list_all byte bs"
    by auto
  obtain v where v: "int16 (x, y) = Inr v" "byte v"
    using 3(2) int16_hex [of x y] by auto
  show ?case
    using bs v by (simp add: digest_bytes_Cons2)
qed

lemma int16_error: "int16 p = Inl e \<Longrightarrow> e = ValueError literal_msg"
  by (auto simp add: int16_def split: prod.splits option.splits if_splits)

lemma int16_stray:
  assumes "(\<not> is_hex a \<and> \<not> is_space a \<and> a \<noteq> CHR ''+'' \<and> a \<noteq> CHR ''-'')
      \<or> (\<not> is_hex b \<and> \<not> is_space b)"
  shows "int16 (a, b) = Inl (ValueError literal_msg)"
  using assms by (auto simp add: int16_def is_hex_def split: option.splits)

lemma digest_bytes_snoc: "even (length d) \<Longrightarrow> digest_bytes (d @ [c]) = digest_bytes d"
proof (induction d rule: stride2.induct)
  case 1
  show ?case by (simp add: digest_bytes_Nil digest_bytes_single)
next
  case (2 x)
  then show ?case by simp
next
  case (3 x y xs)
  then have e: "digest_bytes (xs @ [c]) = digest_bytes xs"
    by simp
  show ?case
    by (simp only: append_Cons digest_bytes_Cons2 e)
qed

lemma digest_bytes_invalid:
  "2 * i + 1 < length d \<Longrightarrow> int16 (d ! (2 * i), d ! (2 * i + 1)) = Inl e \<Longrightarrow>
   digest_bytes d = Inl (ValueError literal_msg)"
proof (induction d arbitrary: i rule: stride2.induct)
  case 1
  then show ?case by simp
next
  case (2 x)
  then show ?case by simp
next
  case (3 x y xs)
  show ?case
  proof (cases i)
    case 0
    with 3(3) have "int16 (x, y) = Inl e"
      by simp
    moreover from this have "e = ValueError literal_msg"
      by (rule int16_error)
    ultimately show ?thesis
      by (simp add: digest_bytes_Cons2)
  next
    case (Suc j)
    with 3(2,3) have "2 * j + 1 < length xs" "int16 (xs ! (2 * j), xs ! (2 * j + 1)) = Inl e"
      by simp_all
    then have t: "digest_bytes xs = Inl (ValueError literal_msg)"
      by (rule 3(1))
    show ?thesis
    proof (cases "int16 (x, y)")
      case (Inl e')
      then have "e' = ValueError literal_msg"
        by (rule int16_error)
      with Inl show ?thesis
        by (simp add: digest_bytes_Cons2)
    next
      case (Inr b)
      with t show ?thesis
        by (simp add: digest_bytes_Cons2)
    qed
  qed
qed

section \<open>Bytes stay bytes\<close>

lemma byte_xor: "byte a \<Longrightarrow> byte b \<Longrightarrow> byte (a XOR b)"
  using XOR_upper [of a 8 b] by (simp add: byte_def)

lemma byte_foldl: "byte a \<Longrightarrow> list_all byte bs \<Longrightarrow> byte (foldl (XOR) a bs)"
  by (induction bs arbitrary: a) (simp_all add: byte_xor)

lemma byte_checksum: "list_all byte bs \<Longrightarrow> byte (checksum bs)"
proof -
  have "byte 0" by (simp add: byte_def)
  then show "list_all byte bs \<Longrightarrow> byte (checksum bs)"
    by (simp add: checksum_def byte_foldl)
qed

lemma compress_bytes:
  assumes "1 \<le> target" "target \<le> int (length bytes)" "list_all byte bytes"
  shows "\<exists>out. compress bytes target = Inr out \<and> length out = nat target \<and> list_all byte out"
proof -
  define k where "k = nat target"
  define segs where "segs = spec_segments (length bytes div k) k bytes"
  have k: "0 < k" "k \<le> length bytes" "int k = target"
    using assms by (simp_all add: k_def)
  have c: "compress bytes target = Inr (map checksum segs)"
    using compress_nat [OF k(1,2)] k(3) by (simp add: segs_def)
  have "concat segs = bytes"
    using k(1) by (simp add: segs_def concat_spec_segments)
  then have "\<forall>seg \<in> set segs. set seg \<subseteq> set bytes"
    by auto
  then have "\<forall>seg \<in> set segs. list_all byte seg"
    using assms(3) by (auto simp add: list_all_iff)
  then have "list_all byte (map checksum segs)"
    by (simp add: list_all_iff byte_checksum)
  moreover have "length (map checksum segs) = nat target"
    using k(1) by (simp add: segs_def length_spec_segments k_def)
  ultimately show ?thesis
    using c by simp
qed

lemma traverse_getitem:
  "list_all (\<lambda>b. 0 \<le> b \<and> b < int (length W)) bs \<Longrightarrow>
   traverse (getitem W) bs = Inr (map (\<lambda>b. W ! nat b) bs)"
  by (induction bs) (simp_all add: getitem_def)

lemma humanize_hex:
  assumes "length (wordlist H) = 256" and "list_all is_hex d"
    and "1 \<le> n" and "n \<le> int (length d) div 2"
  shows "\<exists>bytes compressed.
      digest_bytes d = Inr bytes \<and> length bytes = length d div 2
    \<and> compress bytes n = Inr compressed \<and> length compressed = nat n
    \<and> list_all byte compressed
    \<and> humanize H d n s = Inr (join s (map (\<lambda>b. wordlist H ! nat b) compressed))"
proof -
  obtain bytes where b: "digest_bytes d = Inr bytes" "length bytes = length d div 2"
      "list_all byte bytes"
    using digest_bytes_hex [OF assms(2)] by auto
  have "n \<le> int (length bytes)"
    using assms(4) b(2) by (simp add: zdiv_int)
  then obtain compressed where c: "compress bytes n = Inr compressed"
      "length compressed = nat n" "list_all byte compressed"
    using compress_bytes [OF assms(3) _ b(3)] by auto
  have "list_all (\<lambda>b. 0 \<le> b \<and> b < int (length (wordlist H))) compressed"
    using c(3) assms(1) by (simp add: list_all_iff byte_def)
  then have "traverse (getitem (wordlist H)) compressed
      = Inr (map (\<lambda>b. wordlist H ! nat b) compressed)"
    by (rule traverse_getitem)
  then have "humanize H d n s = Inr (join s (map (\<lambda>b. wordlist H ! nat b) compressed))"
    by (simp add: humanize_def b(1) c(1))
  then show ?thesis
    using b c by auto
qed

section \<open>The digest of a UUID\<close>

lemma length_hex32: "length (hex32 u) = 32"
  by (simp add: hex32_def)

lemma nibble_less: "unat (w AND 15 :: 128 word) < 16"
proof -
  have "unat (w AND 15) \<le> unat (15 :: 128 word)"
    by (rule word_and_le1 [THEN word_le_nat_alt [THEN iffD1]])
  then show ?thesis by simp
qed

lemma hexdigit_hex: "n < 16 \<Longrightarrow> is_hex (hexdigit n) \<and> hexdigit n \<noteq> CHR ''-''"
proof -
  assume "n < 16"
  then have "n \<in> set [0..<16]"
    by simp
  moreover have "list_all (\<lambda>n. is_hex (hexdigit n) \<and> hexdigit n \<noteq> CHR ''-'') [0..<16]"
    by code_simp
  ultimately show ?thesis
    unfolding list_all_iff by blast
qed

lemma hex32_hex: "list_all is_hex (hex32 u)"
  by (simp add: hex32_def list_all_iff hexdigit_hex nibble_less)

lemma hex32_no_dash: "filter (\<lambda>c. c \<noteq> CHR ''-'') (hex32 u) = hex32 u"
  by (simp add: hex32_def filter_id_conv hexdigit_hex nibble_less)

lemma str_uuid_groups:
  "str_uuid u = take 8 (hex32 u) @ ''-'' @ take 4 (drop 8 (hex32 u)) @ ''-''
     @ take 4 (drop 12 (hex32 u)) @ ''-'' @ take 4 (drop 16 (hex32 u)) @ ''-''
     @ drop 20 (hex32 u)"
  using slice_nat [of "hex32 u" 0 8] slice_nat [of "hex32 u" 8 12]
    slice_nat [of "hex32 u" 12 16] slice_nat [of "hex32 u" 16 20]
    slice_from_nat [of "hex32 u" 20]
  by (simp add: str_uuid_def Let_def)

lemma regroup:
  "take 8 h @ take 4 (drop 8 h) @ take 4 (drop 12 h) @ take 4 (drop 16 h) @ drop 20 h = h"
proof -
  have "take 4 (drop 16 h) @ drop 20 h = drop 16 h"
    using append_take_drop_id [of 4 "drop 16 h"] by simp
  moreover have "take 4 (drop 12 h) @ drop 16 h = drop 12 h"
    using append_take_drop_id [of 4 "drop 12 h"] by simp
  moreover have "take 4 (drop 8 h) @ drop 12 h = drop 8 h"
    using append_take_drop_id [of 4 "drop 8 h"] by simp
  ultimately show ?thesis
    by simp
qed

lemma strip_dashes_str_uuid: "strip_dashes (str_uuid u) = hex32 u"
proof -
  have f: "filter (\<lambda>c. c \<noteq> CHR ''-'') xs = xs" if "set xs \<subseteq> set (hex32 u)" for xs
  proof -
    have "\<forall>c \<in> set (hex32 u). c \<noteq> CHR ''-''"
      using hex32_no_dash [of u] by (simp add: filter_id_conv)
    with that show ?thesis
      by (auto simp add: filter_id_conv)
  qed
  have "strip_dashes (str_uuid u) =
      take 8 (hex32 u) @ take 4 (drop 8 (hex32 u)) @ take 4 (drop 12 (hex32 u))
      @ take 4 (drop 16 (hex32 u)) @ drop 20 (hex32 u)"
    by (simp add: strip_dashes_def str_uuid_groups f set_take_subset set_drop_subset
        subset_trans [OF set_take_subset set_drop_subset])
  then show ?thesis
    by (simp only: regroup)
qed

section \<open>The store after a call\<close>

lemma slices_st_eq:
  "bytes < length (int_lists \<sigma>) \<Longrightarrow>
   slices_st bytes seg_size is \<sigma> =
     ([length (int_lists \<sigma>)..<length (int_lists \<sigma>) + length is],
      \<sigma>\<lparr>int_lists := int_lists \<sigma>
            @ map (\<lambda>i. slice (int_lists \<sigma> ! bytes) (i * seg_size) ((i + 1) * seg_size)) is\<rparr>)"
proof (induction "is" arbitrary: \<sigma>)
  case Nil
  show ?case by simp
next
  case (Cons i "is")
  define x where "x = slice (int_lists \<sigma> ! bytes) (i * seg_size) ((i + 1) * seg_size)"
  define \<sigma>1 where "\<sigma>1 = \<sigma>\<lparr>int_lists := int_lists \<sigma> @ [x]\<rparr>"
  have b: "bytes < length (int_lists \<sigma>1)" and n: "int_lists \<sigma>1 ! bytes = int_lists \<sigma> ! bytes"
    using Cons.prems by (simp_all add: \<sigma>1_def nth_append)
  have "slices_st bytes seg_size (i # is) \<sigma> =
      (length (int_lists \<sigma>) # fst (slices_st bytes seg_size is \<sigma>1),
       snd (slices_st bytes seg_size is \<sigma>1))"
    by (simp add: new_ints_def x_def \<sigma>1_def Let_def split_beta)
  also have "\<dots> = ([length (int_lists \<sigma>)..<length (int_lists \<sigma>) + length (i # is)],
      \<sigma>\<lparr>int_lists := int_lists \<sigma>
            @ map (\<lambda>i. slice (int_lists \<sigma> ! bytes) (i * seg_size) ((i + 1) * seg_size)) (i # is)\<rparr>)"
  proof -
    have u: "[length (int_lists \<sigma>)..<length (int_lists \<sigma>) + length (i # is)]
        = length (int_lists \<sigma>) # [length (int_lists \<sigma>1)..<length (int_lists \<sigma>1) + length is]"
      by (simp add: \<sigma>1_def upt_conv_Cons del: upt_Suc)
    have v: "\<sigma>1\<lparr>int_lists := int_lists \<sigma>1
            @ map (\<lambda>i. slice (int_lists \<sigma>1 ! bytes) (i * seg_size) ((i + 1) * seg_size)) is\<rparr>
        = \<sigma>\<lparr>int_lists := int_lists \<sigma>
            @ map (\<lambda>i. slice (int_lists \<sigma> ! bytes) (i * seg_size) ((i + 1) * seg_size)) (i # is)\<rparr>"
      by (simp add: n) (simp add: \<sigma>1_def x_def)
    show ?thesis
      by (simp only: Cons.IH [OF b] fst_conv snd_conv u v)
  qed
  finally show ?case .
qed


lemma nth_mid_last: "S \<noteq> [] \<Longrightarrow> (A @ S @ C) ! (length A + length S - 1) = last S"
proof -
  assume "S \<noteq> []"
  then obtain ys y where S: "S = ys @ [y]"
    by (cases S rule: rev_cases) auto
  have "(A @ S @ C) ! (length A + length S - 1) = ((A @ ys) @ y # C) ! length (A @ ys)"
    by (simp add: S)
  also have "\<dots> = y"
    by (rule nth_append_length)
  finally show ?thesis
    by (simp add: S)
qed

lemma nth_after: "(A @ S @ [v]) ! (length A + length S) = v"
  by (simp add: nth_append)

lemma update_mid_last:
  "S \<noteq> [] \<Longrightarrow> (A @ S @ C)[length A + length S - 1 := v] = A @ (butlast S @ [v]) @ C"
proof -
  assume "S \<noteq> []"
  then obtain ys y where S: "S = ys @ [y]"
    by (cases S rule: rev_cases) auto
  have "(A @ S @ C)[length A + length S - 1 := v] = ((A @ ys) @ y # C)[length (A @ ys) := v]"
    by (simp add: S)
  also have "\<dots> = (A @ ys) @ v # C"
    by (rule list_update_length)
  finally show ?thesis
    by (simp add: S)
qed

lemma map_nth_mid:
  "map (\<lambda>r. f ((A @ B @ C) ! r)) [length A..<length A + length B] = map f B"
proof (rule nth_equalityI)
  show "length (map (\<lambda>r. f ((A @ B @ C) ! r)) [length A..<length A + length B]) = length (map f B)"
    by simp
next
  fix i
  assume "i < length (map (\<lambda>r. f ((A @ B @ C) ! r)) [length A..<length A + length B])"
  then have "i < length B"
    by simp
  then show "map (\<lambda>r. f ((A @ B @ C) ! r)) [length A..<length A + length B] ! i = map f B ! i"
    by (simp add: nth_append)
qed

lemma last_upt_add: "0 < n \<Longrightarrow> last [L..<L + n] = L + n - 1"
  by (cases n) simp_all

lemma compress_st_fewer:
  "int (length (int_lists \<sigma> ! bytes)) < target \<Longrightarrow>
   compress_st bytes target \<sigma> = (Inl (ValueError fewer_msg), \<sigma>)"
  by (simp add: compress_st_def)

lemma compress_st_zero: "compress_st bytes 0 \<sigma> = (Inl ZeroDivisionError, \<sigma>)"
  by (simp add: compress_st_def)

lemma compress_st_negative:
  assumes "target < 0"
  shows "compress_st bytes target \<sigma> = (Inl IndexError, \<sigma>\<lparr>ref_lists := ref_lists \<sigma> @ [[]]\<rparr>)"
  using assms by (simp add: compress_st_def Let_def xrange_def new_refs_def)

lemma compress_st_ok:
  assumes b: "bytes < length (int_lists \<sigma>)"
    and t: "1 \<le> target" "target \<le> int (length (int_lists \<sigma> ! bytes))"
  shows "\<exists>out junk.
      compress (int_lists \<sigma> ! bytes) target = Inr out
    \<and> compress_st bytes target \<sigma> =
        (Inr (length (int_lists \<sigma>) + length junk),
         \<sigma>\<lparr>int_lists := int_lists \<sigma> @ junk @ [out],
           ref_lists := ref_lists \<sigma>
             @ [[length (int_lists \<sigma>)..<length (int_lists \<sigma>) + nat target]]\<rparr>)"
proof -
  define A where "A = int_lists \<sigma>"
  define xs where "xs = A ! bytes"
  define seg_size where "seg_size = int (length xs) div target"
  define S where "S = map (\<lambda>i. slice xs (i * seg_size) ((i + 1) * seg_size)) (xrange target)"
  define rv where "rv = slice_from xs (target * seg_size)"
  define S' where "S' = butlast S @ [last S @ rv]"
  define rs where "rs = [length A..<length A + length S]"
  have n: "length S = nat target" "S \<noteq> []" "0 < length S"
    using t(1) by (auto simp add: S_def xrange_def)
  have rs: "rs \<noteq> []" "last rs = length A + length S - 1"
    using n(3) by (simp_all add: rs_def last_upt_add)
  have pure: "compress xs target = Inr (map checksum S')"
    using t n(2) by (simp add: compress_def Let_def xs_def A_def S_def S'_def rv_def seg_size_def)
  have sl: "slices_st bytes seg_size (xrange target) \<sigma> = (rs, \<sigma>\<lparr>int_lists := A @ S\<rparr>)"
    using slices_st_eq [OF b, of seg_size "xrange target"]
    by (simp add: rs_def S_def A_def xs_def)
  have xs': "(A @ S) ! bytes = xs"
    using b by (simp add: nth_append A_def xs_def)
  have l: "length S' = length S"
    using n(2) by (simp add: S'_def)
  have m: "map (\<lambda>r. checksum ((A @ S' @ [rv]) ! r)) rs = map checksum S'"
    using map_nth_mid [of checksum A S' "[rv]"] by (simp add: rs_def l)
  have u: "(A @ S @ [rv])[length A + length S - 1 := (A @ S @ [rv]) ! (length A + length S - 1) @ rv]
      = A @ S' @ [rv]"
    using nth_mid_last [OF n(2), of A "[rv]"]
      update_mid_last [OF n(2), of A "[rv]" "last S @ rv"]
    by (simp only: S'_def)
  have "compress_st bytes target \<sigma> =
      (Inr (length A + length (S' @ [rv])),
       \<sigma>\<lparr>int_lists := A @ (S' @ [rv]) @ [map checksum S'], ref_lists := ref_lists \<sigma> @ [rs]\<rparr>)"
    using t rs(1)
    apply (simp add: compress_st_def Let_def A_def [symmetric] xs_def [symmetric]
        seg_size_def [symmetric] sl new_refs_def new_ints_def extend_st_def xs'
        rv_def [symmetric] rs(2))
    apply (simp add: nth_after [of A S rv, simplified] u [simplified] m [simplified] l)
    done
  then have "compress (int_lists \<sigma> ! bytes) target = Inr (map checksum S')
    \<and> compress_st bytes target \<sigma> =
        (Inr (length (int_lists \<sigma>) + length (S' @ [rv])),
         \<sigma>\<lparr>int_lists := int_lists \<sigma> @ (S' @ [rv]) @ [map checksum S'],
           ref_lists := ref_lists \<sigma>
             @ [[length (int_lists \<sigma>)..<length (int_lists \<sigma>) + nat target]]\<rparr>)"
    using pure n(1) by (simp add: A_def xs_def rs_def)
  then show ?thesis
    by blast
qed


lemma take_length_le: "take (length a) b = a \<Longrightarrow> length a \<le> length b"
proof -
  assume "take (length a) b = a"
  then have "length (take (length a) b) = length a"
    by simp
  then show ?thesis
    by simp
qed

lemma preserved_refl: "preserved \<sigma> \<sigma>"
  by (simp add: preserved_def)

lemma preserved_trans: "preserved \<sigma>1 \<sigma>2 \<Longrightarrow> preserved \<sigma>2 \<sigma>3 \<Longrightarrow> preserved \<sigma>1 \<sigma>3"
proof -
  have t: "take (length a) c = a" if "take (length a) b = a" "take (length b) c = b"
    for a b c :: "'a list"
  proof -
    have "length a \<le> length b"
      using that(1) by (rule take_length_le)
    then have "take (length a) (take (length b) c) = take (length a) c"
      by (simp add: min_def)
    then show ?thesis
      using that by simp
  qed
  show "preserved \<sigma>1 \<sigma>2 \<Longrightarrow> preserved \<sigma>2 \<sigma>3 \<Longrightarrow> preserved \<sigma>1 \<sigma>3"
    unfolding preserved_def by (blast intro: t)
qed

lemma preserved_nth:
  assumes "preserved \<sigma> \<sigma>'" and "a < length (hashers \<sigma>)"
  shows "a < length (hashers \<sigma>') \<and> hashers \<sigma>' ! a = hashers \<sigma> ! a"
proof -
  have t: "take (length (hashers \<sigma>)) (hashers \<sigma>') = hashers \<sigma>"
    using assms(1) by (simp add: preserved_def)
  then have "length (hashers \<sigma>) \<le> length (hashers \<sigma>')"
    by (rule take_length_le)
  moreover have "take (length (hashers \<sigma>)) (hashers \<sigma>') ! a = hashers \<sigma>' ! a"
    using assms(2) by simp
  ultimately show ?thesis
    using assms(2) t by simp
qed

lemma compress_st_frame:
  assumes "bytes < length (int_lists \<sigma>)"
  shows "preserved \<sigma> (snd (compress_st bytes target \<sigma>))
    \<and> hashers (snd (compress_st bytes target \<sigma>)) = hashers \<sigma>"
proof -
  consider "int (length (int_lists \<sigma> ! bytes)) < target" | "target = 0" | "target < 0"
    | "1 \<le> target" "target \<le> int (length (int_lists \<sigma> ! bytes))"
    by linarith
  then show ?thesis
  proof cases
    case 1
    then show ?thesis by (simp add: compress_st_fewer preserved_refl)
  next
    case 2
    then show ?thesis by (simp add: compress_st_zero preserved_refl)
  next
    case 3
    then show ?thesis by (simp add: compress_st_negative preserved_def)
  next
    case 4
    from compress_st_ok [OF assms 4] obtain out junk where
      "compress_st bytes target \<sigma> =
        (Inr (length (int_lists \<sigma>) + length junk),
         \<sigma>\<lparr>int_lists := int_lists \<sigma> @ junk @ [out],
           ref_lists := ref_lists \<sigma>
             @ [[length (int_lists \<sigma>)..<length (int_lists \<sigma>) + nat target]]\<rparr>)"
      by blast
    then show ?thesis by (simp add: preserved_def)
  qed
qed

lemma compress_st_value:
  assumes "bytes < length (int_lists \<sigma>)"
  shows "map_sum id (\<lambda>r. int_lists (snd (compress_st bytes target \<sigma>)) ! r)
           (fst (compress_st bytes target \<sigma>))
         = compress (int_lists \<sigma> ! bytes) target"
proof -
  consider "int (length (int_lists \<sigma> ! bytes)) < target" | "target = 0" | "target < 0"
    | "1 \<le> target" "target \<le> int (length (int_lists \<sigma> ! bytes))"
    by linarith
  then show ?thesis
  proof cases
    case 1
    then show ?thesis by (simp add: compress_st_fewer compress_fewer)
  next
    case 2
    then show ?thesis by (simp add: compress_st_zero compress_zero)
  next
    case 3
    then show ?thesis by (simp add: compress_st_negative compress_negative)
  next
    case 4
    from compress_st_ok [OF assms 4] obtain out junk where
      "compress (int_lists \<sigma> ! bytes) target = Inr out"
      "compress_st bytes target \<sigma> =
        (Inr (length (int_lists \<sigma>) + length junk),
         \<sigma>\<lparr>int_lists := int_lists \<sigma> @ junk @ [out],
           ref_lists := ref_lists \<sigma>
             @ [[length (int_lists \<sigma>)..<length (int_lists \<sigma>) + nat target]]\<rparr>)"
      by blast
    then show ?thesis
      using nth_after [of "int_lists \<sigma>" junk out] by simp
  qed
qed

lemma humanize_st_pure:
  "fst (humanize_st self hexdigest words separator \<sigma>)
     = humanize \<lparr>wordlist = hashers \<sigma> ! self\<rparr> hexdigest words separator
   \<and> hashers (snd (humanize_st self hexdigest words separator \<sigma>)) = hashers \<sigma>
   \<and> preserved \<sigma> (snd (humanize_st self hexdigest words separator \<sigma>))"
proof (cases "digest_bytes hexdigest")
  case (Inl e)
  then show ?thesis
    by (simp add: humanize_st_def humanize_def preserved_refl)
next
  case (Inr bs)
  define \<sigma>1 where "\<sigma>1 = \<sigma>\<lparr>int_lists := int_lists \<sigma> @ [bs]\<rparr>"
  define b where "b = length (int_lists \<sigma>)"
  have b: "b < length (int_lists \<sigma>1)" "int_lists \<sigma>1 ! b = bs"
    by (simp_all add: \<sigma>1_def b_def)
  have p1: "preserved \<sigma> \<sigma>1" "hashers \<sigma>1 = hashers \<sigma>"
    by (simp_all add: \<sigma>1_def preserved_def)
  obtain r \<sigma>2 where c: "compress_st b words \<sigma>1 = (r, \<sigma>2)"
    by (cases "compress_st b words \<sigma>1")
  have f: "preserved \<sigma>1 \<sigma>2" "hashers \<sigma>2 = hashers \<sigma>1"
    using compress_st_frame [OF b(1), of words] by (simp_all add: c)
  have v: "map_sum id (\<lambda>r. int_lists \<sigma>2 ! r) r = compress bs words"
    using compress_st_value [OF b(1), of words] by (simp add: c b(2))
  have h: "humanize_st self hexdigest words separator \<sigma> =
      (case r of
         Inl e \<Rightarrow> (Inl e, \<sigma>2)
       | Inr compressed \<Rightarrow>
           (case traverse (getitem (hashers \<sigma>2 ! self)) (int_lists \<sigma>2 ! compressed) of
              Inl e \<Rightarrow> (Inl e, \<sigma>2)
            | Inr ws \<Rightarrow> (Inr (join separator ws), \<sigma>2)))"
    by (simp add: humanize_st_def Inr new_ints_def \<sigma>1_def [symmetric] b_def [symmetric] c
        split: sum.splits)
  have s: "snd (humanize_st self hexdigest words separator \<sigma>) = \<sigma>2"
    by (simp add: h split: sum.splits)
  have "fst (humanize_st self hexdigest words separator \<sigma>)
      = humanize \<lparr>wordlist = hashers \<sigma> ! self\<rparr> hexdigest words separator"
  proof (cases r)
    case (Inl e)
    then have "compress bs words = Inl e"
      using v by simp
    then show ?thesis
      by (simp add: h Inl humanize_def \<open>digest_bytes hexdigest = Inr bs\<close>)
  next
    case (Inr compressed)
    then have "compress bs words = Inr (int_lists \<sigma>2 ! compressed)"
      using v by simp
    then show ?thesis
      by (simp add: h Inr humanize_def \<open>digest_bytes hexdigest = Inr bs\<close> f(2) p1(2)
          split: sum.splits)
  qed
  then show ?thesis
    using s f p1 preserved_trans [OF p1(1) f(1)] by simp
qed


lemma init_st_hasher:
  assumes "init_st wl \<sigma> = (Inr h, \<sigma>')"
  shows "h < length (hashers \<sigma>') \<and> hashers \<sigma>' ! h = wl \<and> length wl = 256 \<and> preserved \<sigma> \<sigma>'"
  using assms
  by (auto simp add: init_st_def new_hasher_def preserved_def split: if_splits)

section \<open>The documented example of \<^verbatim>\<open>compress\<close>\<close>

text \<open>
  C6. The doctest of \<^verbatim>\<open>compress\<close>: the eleven bytes
  96, 173, 141, 13, 135, 27, 96, 149, 128, 130, 151 compressed to 4 give
  205, 128, 156, 96 (the last segment takes the three left-over bytes).
\<close>

theorem compress_doctest:
  "compress [96, 173, 141, 13, 135, 27, 96, 149, 128, 130, 151] 4 = Inr [205, 128, 156, 96]"
  by code_simp

section \<open>What \<open>compress\<close> computes\<close>

text \<open>
  C1. For a byte sequence \<open>input\<close> of length \<open>L\<close> and \<open>1 \<le> target \<le> L\<close>,
  \<open>compress input target\<close> returns the \<open>target\<close> bytes of the specification's
  algorithm: with \<open>segSize = L div target\<close> the input is cut, in order, into
  \<open>target\<close> contiguous segments (their concatenation is the input), every segment but
  the last has \<open>segSize\<close> bytes, the last has \<open>segSize + L mod target\<close>, and each
  output byte is the XOR of its segment folded from 0. The output has exactly
  \<open>target\<close> bytes.
\<close>

theorem compress_segments:
  assumes "1 \<le> target" and "target \<le> int (length input)"
  shows "compress input target = Inr (spec_compress input (nat target))
    \<and> length (spec_compress input (nat target)) = nat target
    \<and> (let segSize = length input div nat target;
            segs = spec_segments segSize (nat target) input
        in length segs = nat target
         \<and> concat segs = input
         \<and> list_all (\<lambda>seg. length seg = segSize) (butlast segs)
         \<and> length (last segs) = segSize + length input mod nat target)"
proof -
  define k where "k = nat target"
  define s where "s = length input div k"
  define segs where "segs = spec_segments s k input"
  have k: "0 < k" "k \<le> length input" "target = int k"
    using assms by (simp_all add: k_def)
  have ks: "k * s \<le> length input"
    by (simp add: s_def)
  have c: "compress input target = Inr (spec_compress input k)"
    using compress_nat [OF k(1,2)] k(3) by (simp add: spec_compress_def checksum_spec_xor)
  have len: "length (spec_compress input k) = k"
    using k(1) by (simp add: spec_compress_def length_spec_segments)
  have n: "length segs = k" "concat segs = input"
    using k(1) by (simp_all add: segs_def length_spec_segments concat_spec_segments)
  have mid: "list_all (\<lambda>seg. length seg = s) (butlast segs)"
  proof -
    have "length (butlast segs ! i) = s" if "i < length (butlast segs)" for i
    proof -
      from that have i: "Suc i < k"
        by (simp add: n)
      then have "Suc i * s \<le> k * s"
        by (intro mult_le_mono1) simp
      then have "i * s + s \<le> length input"
        using ks by simp
      moreover have "butlast segs ! i = take s (drop (i * s) input)"
        using that i by (simp add: nth_butlast segs_def nth_spec_segments)
      ultimately show ?thesis
        by simp
    qed
    then show ?thesis
      by (simp add: list_all_length)
  qed
  have "length input = k * s + length input mod k"
    by (simp add: s_def)
  moreover have "k * s = (k - 1) * s + s"
    using k(1) by (cases k) simp_all
  ultimately have "length input - (k - 1) * s = s + length input mod k"
    by linarith
  then have lst: "length (last segs) = s + length input mod k"
    using k(1) by (simp add: segs_def last_spec_segments)
  show ?thesis
    using c len mid lst n
    by (simp add: Let_def k_def [symmetric] s_def [symmetric] segs_def [symmetric])
qed

theorem compress_segments_witness:
  "(1::int) \<le> 3 \<and> (3::int) \<le> int (length [1, 2, 3, 4, 5, 6, 7 :: int])
   \<and> compress [1, 2, 3, 4, 5, 6, 7] 3 = Inr (spec_compress [1, 2, 3, 4, 5, 6, 7] 3)
   \<and> spec_compress [1, 2, 3, 4, 5, 6, 7] 3 = [3, 7, 4]
   \<and> spec_segments 2 3 [1, 2, 3, 4, 5, 6, 7 :: int] = [[1, 2], [3, 4], [5, 6, 7]]"
proof -
  have h: "(1::int) \<le> 3" "(3::int) \<le> int (length [1, 2, 3, 4, 5, 6, 7 :: int])"
    by simp_all
  have e: "spec_segments 2 3 [1, 2, 3, 4, 5, 6, 7 :: int] = [[1, 2], [3, 4], [5, 6, 7]]"
    by (simp add: spec_segments_def numeral_3_eq_3 numeral_2_eq_2)
  have "spec_compress [1, 2, 3, 4, 5, 6, 7] 3 = [3, 7, 4]"
    by (simp add: spec_compress_def e)
  then show ?thesis
    using compress_segments [OF h] e by simp
qed

section \<open>Too few input bytes\<close>

text \<open>
  C2. For a byte sequence and a target of at least 1, \<open>compress\<close> raises the
  \<^verbatim>\<open>ValueError\<close> "Fewer input bytes than requested output" exactly when the target
  exceeds the number of bytes, it raises nothing else, and it returns when the target
  is at most the number of bytes.
\<close>

theorem compress_insufficient:
  assumes "1 \<le> target"
  shows "(compress bytes target = Inl (ValueError fewer_msg)) = (target > int (length bytes))
    \<and> ((\<exists>e. compress bytes target = Inl e) = (target > int (length bytes)))
    \<and> (target \<le> int (length bytes) \<longrightarrow> (\<exists>out. compress bytes target = Inr out))"
proof (cases "target > int (length bytes)")
  case True
  then show ?thesis
    by (simp add: compress_fewer)
next
  case False
  then obtain out where "compress bytes target = Inr out"
    using compress_returns [of target bytes] assms by auto
  with False show ?thesis
    by simp
qed

theorem compress_insufficient_witness:
  "(1::int) \<le> 15
   \<and> compress [96, 173, 141, 13, 135, 27, 96, 149, 128, 130, 151] 15 = Inl (ValueError fewer_msg)
   \<and> (1::int) \<le> 2 \<and> (\<exists>out. compress [10, 20, 30] 2 = Inr out)"
proof -
  have a: "(1::int) \<le> 15" and b: "(1::int) \<le> 2"
    by simp_all
  show ?thesis
    using compress_insufficient [OF a, of "[96, 173, 141, 13, 135, 27, 96, 149, 128, 130, 151]"]
      compress_insufficient [OF b, of "[10, 20, 30]"]
    by simp
qed

section \<open>Compressing to the input's own length\<close>

text \<open>
  C5, as amended. For a non-empty byte sequence, compressing to its own length returns
  the sequence unchanged: every segment is one byte and its XOR with 0 is that byte.
\<close>

theorem compress_identity:
  assumes "bytes \<noteq> []"
  shows "compress bytes (int (length bytes)) = Inr bytes"
proof -
  define n where "n = length bytes"
  have n: "0 < n" "n \<le> length bytes"
    using assms by (simp_all add: n_def)
  have d: "length bytes div n = 1"
    using n(1) by (simp add: n_def)
  have ne: "chunks 1 n bytes \<noteq> []"
    using n(1) length_chunks [of 1 n bytes] by auto
  have "spec_segments 1 n bytes = chunks 1 n bytes"
    using ne by (simp add: spec_segments_def Let_def n_def)
  then have "spec_segments 1 n bytes = map (\<lambda>x. [x]) bytes"
    by (simp add: n_def chunks_singletons)
  moreover have "map checksum (map (\<lambda>x. [x]) bytes) = bytes"
    by (simp add: checksum_def comp_def)
  ultimately show ?thesis
    using compress_nat [OF n] d by (simp add: n_def)
qed

theorem compress_identity_witness:
  "[7, 200, 31 :: int] \<noteq> [] \<and> compress [7, 200, 31] (int (length [7, 200, 31 :: int])) = Inr [7, 200, 31]"
proof -
  have h: "[7, 200, 31 :: int] \<noteq> []" by simp
  show ?thesis
    using h compress_identity [OF h] by simp
qed

text \<open>
  The empty sequence is the exception: its length is 0, the guard \<open>target > length\<close>
  does not fire, and \<^verbatim>\<open>length // target\<close> divides by zero.
\<close>

theorem compress_identity_empty:
  "compress [] (int (length ([] :: int list))) = Inl ZeroDivisionError
   \<and> compress [] (int (length ([] :: int list))) \<noteq> Inr []"
  by (simp add: compress_def)

section \<open>A target of zero\<close>

text \<open>
  C10. The guard of \<open>compress\<close> tests \<open>target > length\<close> only. With a target of 0
  it never fires, whatever the bytes, and the division \<^verbatim>\<open>length // target\<close> raises
  \<^verbatim>\<open>ZeroDivisionError\<close>; that is the only target at which the division fails, and
  \<open>compress\<close> returns exactly when \<open>1 \<le> target \<le> length\<close>.
\<close>

theorem compress_target_zero:
  "compress bytes 0 = Inl ZeroDivisionError
   \<and> compress bytes 0 \<noteq> Inl (ValueError fewer_msg)
   \<and> ((compress bytes target = Inl ZeroDivisionError) = (target = 0))
   \<and> ((\<exists>out. compress bytes target = Inr out) = (1 \<le> target \<and> target \<le> int (length bytes)))"
proof -
  consider "target > int (length bytes)" | "target = 0" | "target < 0"
    | "1 \<le> target" "target \<le> int (length bytes)"
    by linarith
  then have "((compress bytes target = Inl ZeroDivisionError) = (target = 0))
    \<and> ((\<exists>out. compress bytes target = Inr out) = (1 \<le> target \<and> target \<le> int (length bytes)))"
  proof cases
    case 1
    then show ?thesis by (auto simp add: compress_fewer)
  next
    case 2
    then show ?thesis by (simp add: compress_zero)
  next
    case 3
    then show ?thesis by (simp add: compress_negative)
  next
    case 4
    then obtain out where "compress bytes target = Inr out"
      using compress_returns [of target bytes] by auto
    with 4 show ?thesis by simp
  qed
  then show ?thesis
    by (simp add: compress_zero)
qed

theorem compress_target_zero_witness:
  "compress [1, 2, 3] 0 = Inl ZeroDivisionError \<and> compress [] 0 = Inl ZeroDivisionError
   \<and> (\<exists>out. compress [1, 2, 3] 2 = Inr out) \<and> \<not> (\<exists>out. compress [1, 2, 3] (- 1) = Inr out)"
  using compress_target_zero [of "[1, 2, 3]" 2] compress_target_zero [of "[]" 0]
    compress_target_zero [of "[1, 2, 3]" "- 1"]
  by simp

section \<open>Constructing a hasher\<close>

text \<open>
  C7. \<open>init\<close> raises the \<^verbatim>\<open>ValueError\<close> "Wordlist must have exactly 256 items"
  exactly when the word list does not have 256 entries (so a list of 255 entries is
  refused), and a hasher it returns holds the word list it was given.
\<close>

theorem init_wordlist:
  "((init wl = Inl (ValueError wordlist_msg)) = (length wl \<noteq> 256))
   \<and> ((\<exists>e. init wl = Inl e) = (length wl \<noteq> 256))
   \<and> (length wl = 255 \<longrightarrow> init wl = Inl (ValueError wordlist_msg))
   \<and> (\<forall>h. init wl = Inr h \<longrightarrow> length wl = 256 \<and> wordlist h = wl)
   \<and> (length wl = 256 \<longrightarrow> (\<exists>h. init wl = Inr h))"
  by (auto simp add: init_def)

theorem init_wordlist_witness:
  "length (butlast DEFAULT_WORDLIST) = 255
   \<and> init (butlast DEFAULT_WORDLIST) = Inl (ValueError wordlist_msg)
   \<and> length DEFAULT_WORDLIST = 256
   \<and> init DEFAULT_WORDLIST = Inr \<lparr>wordlist = DEFAULT_WORDLIST\<rparr>
   \<and> wordlist \<lparr>wordlist = DEFAULT_WORDLIST\<rparr> = DEFAULT_WORDLIST"
proof -
  have a: "length (butlast DEFAULT_WORDLIST) = 255"
    by (simp add: length_DEFAULT_WORDLIST)
  have b: "init DEFAULT_WORDLIST = Inr \<lparr>wordlist = DEFAULT_WORDLIST\<rparr>"
    by (simp add: init_def length_DEFAULT_WORDLIST)
  show ?thesis
    using a b init_wordlist [of "butlast DEFAULT_WORDLIST"] init_wordlist [of DEFAULT_WORDLIST]
    by (simp add: length_DEFAULT_WORDLIST)
qed

section \<open>What \<open>humanize\<close> returns\<close>

text \<open>
  C3. For a word list \<open>W\<close> of 256 entries, a hasher \<open>H\<close> built from it, an
  even-length digest \<open>d\<close> of hex digits, a separator \<open>s\<close> and \<open>1 \<le> n \<le> len(d)/2\<close>,
  \<open>humanize H d n s\<close> returns the join by \<open>s\<close> of exactly \<open>n\<close> words, each an entry of
  \<open>W\<close>: the word at the index given by the corresponding byte of the compressed
  digest.
\<close>

theorem humanize_words:
  assumes "length W = 256" and "init W = Inr H"
    and "list_all is_hex d" and "even (length d)"
    and "1 \<le> n" and "n \<le> int (length d) div 2"
  shows "\<exists>bytes compressed.
      digest_bytes d = Inr bytes \<and> length bytes = length d div 2
    \<and> compress bytes n = Inr compressed \<and> length compressed = nat n
    \<and> list_all (\<lambda>b. 0 \<le> b \<and> b < 256) compressed
    \<and> humanize H d n s = Inr (join s (map (\<lambda>b. W ! nat b) compressed))
    \<and> length (map (\<lambda>b. W ! nat b) compressed) = nat n
    \<and> list_all (\<lambda>w. w \<in> set W) (map (\<lambda>b. W ! nat b) compressed)"
proof -
  have H: "wordlist H = W"
    using assms(1,2) by (auto simp add: init_def)
  then have "length (wordlist H) = 256"
    using assms(1) by simp
  from humanize_hex [OF this assms(3,5,6), of s]
  obtain bytes compressed where r: "digest_bytes d = Inr bytes" "length bytes = length d div 2"
      "compress bytes n = Inr compressed" "length compressed = nat n" "list_all byte compressed"
      "humanize H d n s = Inr (join s (map (\<lambda>b. W ! nat b) compressed))"
    unfolding H by blast
  have b: "list_all (\<lambda>b. 0 \<le> b \<and> b < 256) compressed"
    using r(5) by (simp add: list_all_iff byte_def)
  have "nat b < length W" if "b \<in> set compressed" for b
    using that b assms(1) by (auto simp add: list_all_iff)
  then have w: "list_all (\<lambda>w. w \<in> set W) (map (\<lambda>b. W ! nat b) compressed)"
    by (simp add: list_all_iff)
  show ?thesis
    using r(1-4,6) b w by auto
qed

theorem humanize_words_witness:
  "length DEFAULT_WORDLIST = 256
   \<and> init DEFAULT_WORDLIST = Inr \<lparr>wordlist = DEFAULT_WORDLIST\<rparr>
   \<and> list_all is_hex ''60ad8d0d871b6095808297'' \<and> even (length ''60ad8d0d871b6095808297'')
   \<and> (1::int) \<le> 4 \<and> (4::int) \<le> int (length ''60ad8d0d871b6095808297'') div 2
   \<and> humanize \<lparr>wordlist = DEFAULT_WORDLIST\<rparr> ''60ad8d0d871b6095808297'' 4 ''-''
       = Inr ''silicon-valley-apple-function-web''"
proof -
  let ?d = "''60ad8d0d871b6095808297''"
  have h1: "length DEFAULT_WORDLIST = 256"
    by (rule length_DEFAULT_WORDLIST)
  have h2: "init DEFAULT_WORDLIST = Inr \<lparr>wordlist = DEFAULT_WORDLIST\<rparr>"
    by (simp add: init_def h1)
  have h3: "list_all is_hex ?d"
    by code_simp
  have h4: "even (length ?d)" and h5: "(1::int) \<le> 4" and h6: "(4::int) \<le> int (length ?d) div 2"
    by simp_all
  from humanize_words [OF h1 h2 h3 h4 h5 h6, of "''-''"]
  obtain bytes compressed where r: "digest_bytes ?d = Inr bytes"
      "compress bytes 4 = Inr compressed"
      "humanize \<lparr>wordlist = DEFAULT_WORDLIST\<rparr> ?d 4 ''-''
         = Inr (join ''-'' (map (\<lambda>b. DEFAULT_WORDLIST ! nat b) compressed))"
    by blast
  have "digest_bytes ?d = Inr [96, 173, 141, 13, 135, 27, 96, 149, 128, 130, 151]"
    by code_simp
  with r(1) have "bytes = [96, 173, 141, 13, 135, 27, 96, 149, 128, 130, 151]"
    by simp
  moreover have "compress [96, 173, 141, 13, 135, 27, 96, 149, 128, 130, 151] 4
      = Inr [205, 128, 156, 96]"
    by code_simp
  ultimately have "compressed = [205, 128, 156, 96]"
    using r(2) by simp
  moreover have "join ''-'' (map (\<lambda>b. DEFAULT_WORDLIST ! nat b) [205, 128, 156, 96])
      = ''silicon-valley-apple-function-web''"
    by code_simp
  ultimately have "humanize \<lparr>wordlist = DEFAULT_WORDLIST\<rparr> ?d 4 ''-''
      = Inr ''silicon-valley-apple-function-web''"
    using r(3) by simp
  then show ?thesis
    using h1 h2 h3 h4 h5 h6 by simp
qed

section \<open>Digests of odd length\<close>

text \<open>
  C4, as amended. Parsing pairs the characters of the digest from the left, and
  \<^verbatim>\<open>zip\<close> stops at the shorter of its arguments: the unpaired last character of an
  odd-length digest is dropped, and \<open>humanize\<close> goes on exactly as on the even-length
  prefix. A pair holding a character that is neither a hex digit, nor a blank, nor (in
  first place) a sign makes parsing raise \<^verbatim>\<open>ValueError\<close> (invalid literal).
\<close>

theorem humanize_unpaired:
  "(even (length d) \<longrightarrow>
      digest_bytes (d @ [c]) = digest_bytes d
      \<and> humanize self (d @ [c]) words separator = humanize self d words separator)
   \<and> (2 * i + 1 < length d
      \<and> ((\<not> is_hex (d ! (2 * i)) \<and> \<not> is_space (d ! (2 * i))
            \<and> d ! (2 * i) \<noteq> CHR ''+'' \<and> d ! (2 * i) \<noteq> CHR ''-'')
         \<or> (\<not> is_hex (d ! (2 * i + 1)) \<and> \<not> is_space (d ! (2 * i + 1)))) \<longrightarrow>
      humanize self d words separator = Inl (ValueError literal_msg))"
proof (intro conjI impI)
  assume "even (length d)"
  then show "digest_bytes (d @ [c]) = digest_bytes d"
    by (rule digest_bytes_snoc)
  then show "humanize self (d @ [c]) words separator = humanize self d words separator"
    by (simp add: humanize_def)
next
  assume a: "2 * i + 1 < length d
      \<and> ((\<not> is_hex (d ! (2 * i)) \<and> \<not> is_space (d ! (2 * i))
            \<and> d ! (2 * i) \<noteq> CHR ''+'' \<and> d ! (2 * i) \<noteq> CHR ''-'')
         \<or> (\<not> is_hex (d ! (2 * i + 1)) \<and> \<not> is_space (d ! (2 * i + 1))))"
  then have "int16 (d ! (2 * i), d ! (2 * i + 1)) = Inl (ValueError literal_msg)"
    by (intro int16_stray) blast
  with a have "digest_bytes d = Inl (ValueError literal_msg)"
    using digest_bytes_invalid [of i d] by blast
  then show "humanize self d words separator = Inl (ValueError literal_msg)"
    by (simp add: humanize_def)
qed

theorem humanize_unpaired_witness:
  "even (length ''ab'')
   \<and> humanize \<lparr>wordlist = DEFAULT_WORDLIST\<rparr> (''ab'' @ [CHR ''c'']) 1 ''-''
     = humanize \<lparr>wordlist = DEFAULT_WORDLIST\<rparr> ''ab'' 1 ''-''
   \<and> humanize \<lparr>wordlist = DEFAULT_WORDLIST\<rparr> ''ab'' 1 ''-'' = Inr ''illustrator''
   \<and> humanize \<lparr>wordlist = DEFAULT_WORDLIST\<rparr> ''60zd'' 1 ''-'' = Inl (ValueError literal_msg)"
proof -
  have a: "humanize \<lparr>wordlist = DEFAULT_WORDLIST\<rparr> ''ab'' 1 ''-'' = Inr ''illustrator''"
    by code_simp
  have b: "\<not> is_hex CHR ''z''" "\<not> is_space CHR ''z''"
    by (simp_all add: is_hex_def is_space_def hex_value_def)
  show ?thesis
    using a b humanize_unpaired [of "''ab''" "CHR ''c''" "\<lparr>wordlist = DEFAULT_WORDLIST\<rparr>" 1 "''-''" 0]
      humanize_unpaired [of "''60zd''" "CHR ''c''" "\<lparr>wordlist = DEFAULT_WORDLIST\<rparr>" 1 "''-''" 1]
    by simp
qed

text \<open>
  The claim as stated fails on the three-character digest \<^verbatim>\<open>'abc'\<close>: \<open>humanize\<close>
  returns the word of the byte \<^verbatim>\<open>0xab\<close>, as it does for \<^verbatim>\<open>'ab'\<close>.
\<close>

theorem humanize_odd_length:
  "length ''abc'' = 3
   \<and> humanize \<lparr>wordlist = DEFAULT_WORDLIST\<rparr> ''abc'' 1 ''-'' = Inr ''illustrator''
   \<and> humanize \<lparr>wordlist = DEFAULT_WORDLIST\<rparr> ''ab'' 1 ''-'' = Inr ''illustrator''"
  by code_simp

section \<open>A random UUID and its words\<close>

text \<open>
  C8. For every 128-bit value the random source draws, \<open>uuid\<close> returns what
  \<open>humanize\<close> makes of the digest, paired with that digest, the keyword arguments
  passed on as given (and defaulted by \<open>humanize\<close>); the digest is the UUID's canonical
  text without its dashes, 32 hex digits. With a word list of 256 entries and between
  1 and 16 words the call returns such a pair; otherwise the exception of \<open>humanize\<close>
  is the exception of \<open>uuid\<close>.
\<close>

theorem uuid_pair:
  "strip_dashes (str_uuid u) = hex32 u \<and> length (hex32 u) = 32 \<and> list_all is_hex (hex32 u)
   \<and> uuid self u ps =
       (case humanize self (hex32 u)
               (case kw_words ps of None \<Rightarrow> 4 | Some w \<Rightarrow> w)
               (case kw_separator ps of None \<Rightarrow> ''-'' | Some s \<Rightarrow> s) of
          Inl e \<Rightarrow> Inl e
        | Inr human \<Rightarrow> Inr (human, hex32 u))
   \<and> (length (wordlist self) = 256
        \<and> 1 \<le> (case kw_words ps of None \<Rightarrow> 4 | Some w \<Rightarrow> w)
        \<and> (case kw_words ps of None \<Rightarrow> 4 | Some w \<Rightarrow> w) \<le> 16 \<longrightarrow>
      (\<exists>human. uuid self u ps = Inr (human, hex32 u)
         \<and> humanize self (hex32 u)
               (case kw_words ps of None \<Rightarrow> 4 | Some w \<Rightarrow> w)
               (case kw_separator ps of None \<Rightarrow> ''-'' | Some s \<Rightarrow> s) = Inr human))"
proof -
  define n where "n = (case kw_words ps of None \<Rightarrow> 4 | Some w \<Rightarrow> w)"
  define s where "s = (case kw_separator ps of None \<Rightarrow> ''-'' | Some s \<Rightarrow> s)"
  have u: "uuid self u ps =
      (case humanize self (hex32 u) n s of Inl e \<Rightarrow> Inl e | Inr human \<Rightarrow> Inr (human, hex32 u))"
    by (simp add: uuid_def Let_def humanize_kw_def strip_dashes_str_uuid n_def s_def)
  have "\<exists>human. uuid self u ps = Inr (human, hex32 u) \<and> humanize self (hex32 u) n s = Inr human"
    if "length (wordlist self) = 256" "1 \<le> n" "n \<le> 16"
  proof -
    have "n \<le> int (length (hex32 u)) div 2"
      using that(3) by (simp add: length_hex32)
    from humanize_hex [OF that(1) hex32_hex that(2) this, of s]
    obtain human where "humanize self (hex32 u) n s = Inr human"
      by blast
    then show ?thesis
      by (simp add: u)
  qed
  then show ?thesis
    using u by (simp add: strip_dashes_str_uuid length_hex32 hex32_hex n_def s_def)
qed

theorem uuid_pair_witness:
  "length (wordlist \<lparr>wordlist = DEFAULT_WORDLIST\<rparr>) = 256
   \<and> uuid \<lparr>wordlist = DEFAULT_WORDLIST\<rparr> 0x123456789abc4def8123456789abcdef
        \<lparr>kw_words = None, kw_separator = None\<rparr>
       = Inr (''mysql-unix-apple-nlp'', ''123456789abc4def8123456789abcdef'')
   \<and> str_uuid 0x123456789abc4def8123456789abcdef = ''12345678-9abc-4def-8123-456789abcdef''
   \<and> uuid \<lparr>wordlist = DEFAULT_WORDLIST\<rparr> 0x123456789abc4def8123456789abcdef
        \<lparr>kw_words = Some 2, kw_separator = Some ''_''\<rparr>
       = Inr (''java_apple'', ''123456789abc4def8123456789abcdef'')"
proof -
  let ?H = "\<lparr>wordlist = DEFAULT_WORDLIST\<rparr>"
  let ?u = "0x123456789abc4def8123456789abcdef :: 128 word"
  have h: "hex32 ?u = ''123456789abc4def8123456789abcdef''"
    by code_simp
  have s: "str_uuid ?u = ''12345678-9abc-4def-8123-456789abcdef''"
    by code_simp
  have a: "humanize ?H ''123456789abc4def8123456789abcdef'' 4 ''-'' = Inr ''mysql-unix-apple-nlp''"
    by code_simp
  have b: "humanize ?H ''123456789abc4def8123456789abcdef'' 2 ''_'' = Inr ''java_apple''"
    by code_simp
  show ?thesis
    using uuid_pair [of ?u ?H "\<lparr>kw_words = None, kw_separator = None\<rparr>"]
      uuid_pair [of ?u ?H "\<lparr>kw_words = Some 2, kw_separator = Some ''_''\<rparr>"]
    by (simp add: h s a b length_DEFAULT_WORDLIST)
qed

section \<open>Determinism\<close>

text \<open>
  C9. Two hashers built from the same word list, in whatever stores, and called later
  (in stores where the objects that existed at construction are unchanged) with the
  same digest, number of words and separator, return the same result: the one the
  function \<open>humanize\<close> gives on that word list. The call has no side effect: every
  object that existed before it, the hasher included, has the same value after it, so
  a second call returns the same again. \<open>compress\<close> likewise: equal byte lists give
  equal checksums, and the byte list passed in, like every other object, is unchanged.
\<close>

theorem humanize_deterministic:
  assumes "init_st wl \<sigma>a = (Inr h1, \<sigma>1)" and "init_st wl \<sigma>b = (Inr h2, \<sigma>2)"
    and "preserved \<sigma>1 \<tau>1" and "preserved \<sigma>2 \<tau>2"
  shows "fst (humanize_st h1 hexdigest words separator \<tau>1)
      = fst (humanize_st h2 hexdigest words separator \<tau>2)
    \<and> fst (humanize_st h1 hexdigest words separator \<tau>1)
      = humanize \<lparr>wordlist = wl\<rparr> hexdigest words separator
    \<and> preserved \<tau>1 (snd (humanize_st h1 hexdigest words separator \<tau>1))
    \<and> hashers (snd (humanize_st h1 hexdigest words separator \<tau>1)) = hashers \<tau>1
    \<and> fst (humanize_st h1 hexdigest words separator
             (snd (humanize_st h1 hexdigest words separator \<tau>1)))
      = fst (humanize_st h1 hexdigest words separator \<tau>1)
    \<and> (b1 < length (int_lists \<tau>1) \<and> b2 < length (int_lists \<tau>2)
        \<and> int_lists \<tau>1 ! b1 = int_lists \<tau>2 ! b2 \<longrightarrow>
         map_sum id (\<lambda>r. int_lists (snd (compress_st b1 target \<tau>1)) ! r)
           (fst (compress_st b1 target \<tau>1))
         = map_sum id (\<lambda>r. int_lists (snd (compress_st b2 target \<tau>2)) ! r)
             (fst (compress_st b2 target \<tau>2))
       \<and> preserved \<tau>1 (snd (compress_st b1 target \<tau>1)))"
proof -
  have w1: "hashers \<tau>1 ! h1 = wl"
    using init_st_hasher [OF assms(1)] preserved_nth [OF assms(3), of h1] by simp
  have w2: "hashers \<tau>2 ! h2 = wl"
    using init_st_hasher [OF assms(2)] preserved_nth [OF assms(4), of h2] by simp
  note p1 = humanize_st_pure [of h1 hexdigest words separator \<tau>1]
  note p2 = humanize_st_pure [of h2 hexdigest words separator \<tau>2]
  note p3 = humanize_st_pure [of h1 hexdigest words separator
      "snd (humanize_st h1 hexdigest words separator \<tau>1)"]
  have a: "fst (humanize_st h1 hexdigest words separator \<tau>1)
      = humanize \<lparr>wordlist = wl\<rparr> hexdigest words separator"
    using p1 by (simp add: w1)
  have b: "fst (humanize_st h2 hexdigest words separator \<tau>2)
      = humanize \<lparr>wordlist = wl\<rparr> hexdigest words separator"
    using p2 by (simp add: w2)
  have c: "fst (humanize_st h1 hexdigest words separator
             (snd (humanize_st h1 hexdigest words separator \<tau>1)))
      = humanize \<lparr>wordlist = wl\<rparr> hexdigest words separator"
    using p3 p1 by (simp add: w1)
  have d: "map_sum id (\<lambda>r. int_lists (snd (compress_st b1 target \<tau>1)) ! r)
           (fst (compress_st b1 target \<tau>1))
         = map_sum id (\<lambda>r. int_lists (snd (compress_st b2 target \<tau>2)) ! r)
             (fst (compress_st b2 target \<tau>2))
       \<and> preserved \<tau>1 (snd (compress_st b1 target \<tau>1))"
    if "b1 < length (int_lists \<tau>1)" "b2 < length (int_lists \<tau>2)"
      "int_lists \<tau>1 ! b1 = int_lists \<tau>2 ! b2"
    using compress_st_value [OF that(1), of target] compress_st_value [OF that(2), of target]
      compress_st_frame [OF that(1), of target] that(3)
    by simp
  show ?thesis
    using a b c d p1 by simp
qed

theorem humanize_deterministic_witness:
  "init_st DEFAULT_WORDLIST \<lparr>hashers = [], int_lists = [], ref_lists = []\<rparr>
     = (Inr 0, \<lparr>hashers = [DEFAULT_WORDLIST], int_lists = [], ref_lists = []\<rparr>)
   \<and> init_st DEFAULT_WORDLIST \<lparr>hashers = [DEFAULT_WORDLIST], int_lists = [[7, 8]], ref_lists = [[0]]\<rparr>
     = (Inr 1, \<lparr>hashers = [DEFAULT_WORDLIST, DEFAULT_WORDLIST], int_lists = [[7, 8]],
                 ref_lists = [[0]]\<rparr>)
   \<and> preserved \<lparr>hashers = [DEFAULT_WORDLIST], int_lists = [], ref_lists = []\<rparr>
        \<lparr>hashers = [DEFAULT_WORDLIST], int_lists = [[1, 2, 3, 4, 5]], ref_lists = []\<rparr>
   \<and> preserved
        \<lparr>hashers = [DEFAULT_WORDLIST, DEFAULT_WORDLIST], int_lists = [[7, 8]], ref_lists = [[0]]\<rparr>
        \<lparr>hashers = [DEFAULT_WORDLIST, DEFAULT_WORDLIST], int_lists = [[7, 8], [1, 2, 3, 4, 5]],
          ref_lists = [[0]]\<rparr>
   \<and> fst (humanize_st 0 ''0f1e2d3c'' 2 ''_''
          \<lparr>hashers = [DEFAULT_WORDLIST], int_lists = [[1, 2, 3, 4, 5]], ref_lists = []\<rparr>)
     = Inr ''native-app_native-app''
   \<and> fst (humanize_st 1 ''0f1e2d3c'' 2 ''_''
          \<lparr>hashers = [DEFAULT_WORDLIST, DEFAULT_WORDLIST], int_lists = [[7, 8], [1, 2, 3, 4, 5]],
            ref_lists = [[0]]\<rparr>)
     = Inr ''native-app_native-app''
   \<and> int_lists (snd (humanize_st 0 ''0f1e2d3c'' 2 ''_''
          \<lparr>hashers = [DEFAULT_WORDLIST], int_lists = [[1, 2, 3, 4, 5]], ref_lists = []\<rparr>))
     = [[1, 2, 3, 4, 5], [15, 30, 45, 60], [15, 30], [45, 60], [], [17, 17]]
   \<and> map_sum id (\<lambda>r. int_lists (snd (compress_st 0 2
          \<lparr>hashers = [DEFAULT_WORDLIST], int_lists = [[1, 2, 3, 4, 5]], ref_lists = []\<rparr>)) ! r)
        (fst (compress_st 0 2
          \<lparr>hashers = [DEFAULT_WORDLIST], int_lists = [[1, 2, 3, 4, 5]], ref_lists = []\<rparr>))
     = Inr [3, 2]"
proof -
  let ?s1 = "\<lparr>hashers = [DEFAULT_WORDLIST], int_lists = [], ref_lists = []\<rparr>"
  let ?t1 = "\<lparr>hashers = [DEFAULT_WORDLIST], int_lists = [[1, 2, 3, 4, 5]], ref_lists = []\<rparr>"
  let ?s2 = "\<lparr>hashers = [DEFAULT_WORDLIST, DEFAULT_WORDLIST], int_lists = [[7, 8]],
      ref_lists = [[0]]\<rparr>"
  let ?t2 = "\<lparr>hashers = [DEFAULT_WORDLIST, DEFAULT_WORDLIST],
      int_lists = [[7, 8], [1, 2, 3, 4, 5]], ref_lists = [[0]]\<rparr>"
  have i1: "init_st DEFAULT_WORDLIST \<lparr>hashers = [], int_lists = [], ref_lists = []\<rparr> = (Inr 0, ?s1)"
    by (simp add: init_st_def new_hasher_def length_DEFAULT_WORDLIST)
  have i2: "init_st DEFAULT_WORDLIST
      \<lparr>hashers = [DEFAULT_WORDLIST], int_lists = [[7, 8]], ref_lists = [[0]]\<rparr> = (Inr 1, ?s2)"
    by (simp add: init_st_def new_hasher_def length_DEFAULT_WORDLIST)
  have p1: "preserved ?s1 ?t1" and p2: "preserved ?s2 ?t2"
    by (simp_all add: preserved_def)
  have v: "humanize \<lparr>wordlist = DEFAULT_WORDLIST\<rparr> ''0f1e2d3c'' 2 ''_''
      = Inr ''native-app_native-app''"
    by code_simp
  have st: "int_lists (snd (humanize_st 0 ''0f1e2d3c'' 2 ''_'' ?t1))
      = [[1, 2, 3, 4, 5], [15, 30, 45, 60], [15, 30], [45, 60], [], [17, 17]]"
    by code_simp
  have cv: "map_sum id (\<lambda>r. int_lists (snd (compress_st 0 2 ?t1)) ! r) (fst (compress_st 0 2 ?t1))
      = Inr [3, 2]"
    by code_simp
  note T = humanize_deterministic [OF i1 i2 p1 p2, of "''0f1e2d3c''" 2 "''_''" 0 1 2]
  from T have e: "fst (humanize_st 0 ''0f1e2d3c'' 2 ''_'' ?t1)
      = fst (humanize_st 1 ''0f1e2d3c'' 2 ''_'' ?t2)"
    by (rule conjunct1)
  from T have "fst (humanize_st 0 ''0f1e2d3c'' 2 ''_'' ?t1)
      = humanize \<lparr>wordlist = DEFAULT_WORDLIST\<rparr> ''0f1e2d3c'' 2 ''_''"
    by (rule conjunct2 [THEN conjunct1])
  then have r1: "fst (humanize_st 0 ''0f1e2d3c'' 2 ''_'' ?t1) = Inr ''native-app_native-app''"
    by (simp only: v)
  then have r2: "fst (humanize_st 1 ''0f1e2d3c'' 2 ''_'' ?t2) = Inr ''native-app_native-app''"
    by (simp only: e)
  show ?thesis
    using i1 i2 p1 p2 r1 r2 st cv by (intro conjI)
qed

end
